theory Spec2Isabelle
  imports Main
begin

section \<open>The block model of the store (block-model.ts)\<close>

text \<open>
  A \<open>BlockModel\<close> is an object: it is named by a reference, and the document keeps the
  index from block ids to the model objects (\<open>page.getBlock$(id)?.model\<close>). The record
  \<open>block_model\<close> holds the fields of one object that the functions below read or write,
  together with the state of its backing \<open>yBlock\<close>.
\<close>

type_synonym block_id = string
type_synonym ref = nat
type_synonym yref = nat

text \<open>What a listener can be told: the payload of a slot, or a new value of the children signal.\<close>

datatype notification =
  Created_fired
  | Deleted_fired
  | Props_updated string
  | Children_changed "block_id list"

text \<open>
  The callbacks that are subscribed to the slots of a model: the two closures of the
  constructor (\<open>Attach\<close> given to \<open>created.once\<close>, \<open>Teardown\<close> given to \<open>deleted.once\<close>) and
  the listeners of the rest of the program, named by a number. A subscription is a
  callback with the flag of \<open>once\<close>.
\<close>

datatype callback = Attach | Teardown | Listener nat

type_synonym subscription = "callback \<times> bool"

datatype slot_name = Created | Deleted | PropsUpdated

record block_model =
  children_ids :: "block_id list"
  created :: "subscription list"
  deleted :: "subscription list"
  propsUpdated :: "subscription list"
  sys_children :: yref
  arrays :: "yref \<Rightarrow> block_id list"
  replaced_arrays :: "yref list"
  array_observers :: "yref list"
  map_observers :: nat
  watchers :: "nat list"
  seen :: "(nat \<times> notification) list"

text \<open>
  \<open>children_ids\<close> is the value of the signal \<open>_children\<close>; \<open>sys_children\<close> is the Y.Array
  object that \<open>yBlock.get('sys:children')\<close> returns and \<open>arrays\<close> gives the contents
  (\<open>toArray()\<close>) of every Y.Array object; \<open>replaced_arrays\<close> are the Y.Array objects
  that were under \<open>sys:children\<close> and have been replaced there; \<open>array_observers\<close> lists the Y.Array objects on
  which the model has registered its handler with \<open>observe\<close>, one entry for each
  registration, and \<open>map_observers\<close> counts its registrations on \<open>yBlock\<close> itself;
  \<open>watchers\<close> are the subscribers of the children signal and \<open>seen\<close> is the sequence of
  notifications that the listeners have received.
\<close>

record doc =
  blocks :: "block_id \<rightharpoonup> ref"
  models :: "ref \<Rightarrow> block_model"

subsection \<open>Derived values\<close>

text \<open>
  \<open>_childModels\<close>: the \<open>forEach\<close> loop pushes the model of every id that the document
  resolves, and passes over the others.
\<close>

definition childModels :: "(block_id \<rightharpoonup> ref) \<Rightarrow> block_id list \<Rightarrow> ref list" where
  "childModels getBlock ids =
     fold (\<lambda>id value. case getBlock id of Some block \<Rightarrow> value @ [block] | None \<Rightarrow> value) ids []"

text \<open>
  The getter \<open>children\<close> reads the computed value. A computed value is recomputed from
  what it reads (the signal \<open>_children\<close> and the reactive lookup \<open>getBlock$\<close>) once that has
  changed, so a read gives the function of the present state. Every model of a document
  has that document as its \<open>page\<close>.
\<close>

definition children :: "doc \<Rightarrow> ref \<Rightarrow> ref list" where
  "children d this = childModels (blocks d) (children_ids (models d this))"

text \<open>\<open>Array.prototype.reduce\<close> with the index as third argument of the callback.\<close>

primrec reduce_from :: "('b \<Rightarrow> 'a \<Rightarrow> nat \<Rightarrow> 'b) \<Rightarrow> nat \<Rightarrow> 'a list \<Rightarrow> 'b \<Rightarrow> 'b" where
  "reduce_from f index [] acc = acc"
| "reduce_from f index (x # xs) acc = reduce_from f (Suc index) xs (f acc x index)"

definition reduce :: "('b \<Rightarrow> 'a \<Rightarrow> nat \<Rightarrow> 'b) \<Rightarrow> 'b \<Rightarrow> 'a list \<Rightarrow> 'b" where
  "reduce f init xs = reduce_from f 0 xs init"

definition childMap :: "doc \<Rightarrow> ref \<Rightarrow> (block_id \<rightharpoonup> nat)" where
  "childMap d this =
     reduce (\<lambda>map id index. map(id \<mapsto> index)) Map.empty (children_ids (models d this))"

definition isEmpty :: "doc \<Rightarrow> ref \<Rightarrow> bool" where
  "isEmpty d this = (length (children d this) = 0)"

text \<open>
  \<open>firstChild\<close> returns \<open>children[0] || null\<close>: reading index 0 of an empty array gives
  \<open>undefined\<close>, which \<open>||\<close> turns into \<open>null\<close>; a model object is never falsy. \<open>None\<close> is
  \<open>null\<close>.
\<close>

definition firstChild :: "doc \<Rightarrow> ref \<Rightarrow> ref option" where
  "firstChild d this =
     (if 0 < length (children d this) then Some (children d this ! 0) else None)"

text \<open>
  \<open>lastChild\<close> calls itself on the last child, and nothing in the code bounds the
  descent, so it is a partial function: the outer \<open>None\<close> is a call that does not return.
  Its declared result is \<open>BlockModel | null\<close>, the inner option, with \<open>None\<close> for \<open>null\<close>.
\<close>

partial_function (option) lastChild :: "doc \<Rightarrow> ref \<Rightarrow> ref option option" where
  "lastChild d this =
     (if length (children d this) = 0 then Some (Some this)
      else lastChild d (children d this ! (length (children d this) - 1)))"

text \<open>The parent-to-child edges of the document, as pairs (child, parent).\<close>

definition child_rel :: "doc \<Rightarrow> (ref \<times> ref) set" where
  "child_rel d = {(c, p). c \<in> set (children d p)}"

text \<open>The edges from a model to its last child: the steps that \<open>lastChild\<close> takes.\<close>

definition last_rel :: "doc \<Rightarrow> (ref \<times> ref) set" where
  "last_rel d = {(c, p). children d p \<noteq> [] \<and> c = last (children d p)}"

text \<open>The children tree of one model: the edges below it.\<close>

definition tree_rel :: "doc \<Rightarrow> ref \<Rightarrow> (ref \<times> ref) set" where
  "tree_rel d this = {(c, p). (p, this) \<in> (child_rel d)\<^sup>* \<and> c \<in> set (children d p)}"

subsection \<open>Slots\<close>

text \<open>
  Modelled from the spec: the class \<open>Slot\<close> and the \<open>Disposable\<close> that its \<open>on\<close> and
  \<open>once\<close> return (package global, utils) are not among the sources. The spec calls the
  hooks \<^emph>\<open>one-shot notifications\<close> and says of disposal that it \<^emph>\<open>releases all
  subscriptions\<close>: a slot is the list of its subscriptions; \<open>on\<close> and \<open>once\<close> add one at
  the end; \<open>emit\<close> calls the subscribed callbacks in order, and a subscription made with
  \<open>once\<close> is released when its callback has been called; the disposable of a
  subscription releases that subscription; \<open>dispose\<close> of the slot releases them all.
\<close>

definition slot_of :: "slot_name \<Rightarrow> block_model \<Rightarrow> subscription list" where
  "slot_of sl m =
     (case sl of Created \<Rightarrow> created m | Deleted \<Rightarrow> deleted m | PropsUpdated \<Rightarrow> propsUpdated m)"

definition set_slot :: "slot_name \<Rightarrow> subscription list \<Rightarrow> block_model \<Rightarrow> block_model" where
  "set_slot sl subs m =
     (case sl of
        Created \<Rightarrow> m\<lparr>created := subs\<rparr>
      | Deleted \<Rightarrow> m\<lparr>deleted := subs\<rparr>
      | PropsUpdated \<Rightarrow> m\<lparr>propsUpdated := subs\<rparr>)"

definition slot_on :: "slot_name \<Rightarrow> callback \<Rightarrow> block_model \<Rightarrow> block_model" where
  "slot_on sl cb m = set_slot sl (slot_of sl m @ [(cb, False)]) m"

definition slot_once :: "slot_name \<Rightarrow> callback \<Rightarrow> block_model \<Rightarrow> block_model" where
  "slot_once sl cb m = set_slot sl (slot_of sl m @ [(cb, True)]) m"

definition unsubscribe :: "slot_name \<Rightarrow> subscription \<Rightarrow> block_model \<Rightarrow> block_model" where
  "unsubscribe sl sub m = set_slot sl (remove1 sub (slot_of sl m)) m"

definition slot_dispose :: "slot_name \<Rightarrow> block_model \<Rightarrow> block_model" where
  "slot_dispose sl m = set_slot sl [] m"

subsection \<open>The children signal and the callbacks of the constructor\<close>

text \<open>
  An assignment to \<open>_children.value\<close>. The value assigned is always a fresh array (the
  result of \<open>toArray()\<close>), so the signal changes at every assignment and tells each of its
  subscribers.
\<close>

definition write_children :: "block_id list \<Rightarrow> block_model \<Rightarrow> block_model" where
  "write_children ids m =
     m\<lparr>children_ids := ids,
       seen := seen m @ map (\<lambda>l. (l, Children_changed ids)) (watchers m)\<rparr>"

text \<open>The handler given to \<open>observe\<close> of the Y.Array: \<open>event.target\<close> is the array that changed.\<close>

definition array_handler :: "yref \<Rightarrow> block_model \<Rightarrow> block_model" where
  "array_handler target m = write_children (arrays m target) m"

text \<open>The handler given to \<open>yBlock.observe\<close>, called with the keys that changed.\<close>

definition map_handler :: "string set \<Rightarrow> block_model \<Rightarrow> block_model" where
  "map_handler keysChanged m =
     (if ''sys:children'' \<in> keysChanged then write_children (arrays m (sys_children m)) m
      else m)"

text \<open>
  Calling a subscribed callback. \<open>Attach\<close> is the closure of \<open>created.once\<close>: it reads the
  child ids and registers one handler on the Y.Array that \<open>yBlock\<close> holds at that moment
  and one on \<open>yBlock\<close>. \<open>Teardown\<close> is the closure of \<open>deleted.once\<close>: it calls
  \<open>_onCreated.dispose()\<close>, the disposable of the \<open>Attach\<close> subscription.
\<close>

fun call :: "callback \<Rightarrow> notification \<Rightarrow> block_model \<Rightarrow> block_model" where
  "call Attach v m =
     (let m1 = write_children (arrays m (sys_children m)) m;
          m2 = m1\<lparr>array_observers := array_observers m1 @ [sys_children m1]\<rparr>
      in m2\<lparr>map_observers := Suc (map_observers m2)\<rparr>)"
| "call Teardown v m = unsubscribe Created (Attach, True) m"
| "call (Listener l) v m = m\<lparr>seen := seen m @ [(l, v)]\<rparr>"

text \<open>
  Modelled from the spec: \<open>emit\<close> of the class \<open>Slot\<close>, which is not among the sources.
  It goes through the subscriptions that the slot holds when the emit begins, calls each
  callback, and releases a subscription made with \<open>once\<close> when its callback has been called.
\<close>

primrec deliver :: "slot_name \<Rightarrow> notification \<Rightarrow> subscription list \<Rightarrow> block_model \<Rightarrow> block_model" where
  "deliver sl v [] m = m"
| "deliver sl v (sub # subs) m =
     deliver sl v subs
       (let m' = call (fst sub) v m in if snd sub then unsubscribe sl sub m' else m')"

definition emit :: "slot_name \<Rightarrow> notification \<Rightarrow> block_model \<Rightarrow> block_model" where
  "emit sl v m = deliver sl v (slot_of sl m) m"

subsection \<open>Construction and disposal\<close>

text \<open>
  The constructor, followed by the assignment of \<open>yBlock\<close> that the document makes before
  it fires \<open>created\<close>: \<open>a\<close> is the Y.Array under \<open>sys:children\<close> and \<open>arrs\<close> the contents of
  the Y.Array objects.
\<close>

definition new_model :: "yref \<Rightarrow> (yref \<Rightarrow> block_id list) \<Rightarrow> block_model" where
  "new_model a arrs =
     slot_once Deleted Teardown
       (slot_once Created Attach
          \<lparr>children_ids = [], created = [], deleted = [], propsUpdated = [],
           sys_children = a, arrays = arrs, replaced_arrays = [], array_observers = [],
           map_observers = 0,
           watchers = [], seen = []\<rparr>)"

definition dispose :: "block_model \<Rightarrow> block_model" where
  "dispose m = slot_dispose PropsUpdated (slot_dispose Deleted (slot_dispose Created m))"

definition symbol_dispose :: "block_model \<Rightarrow> block_model" where
  "symbol_dispose m =
     unsubscribe Deleted (Teardown, True) (unsubscribe Created (Attach, True) m)"

subsection \<open>Changes of the backing record\<close>

text \<open>
  The observation API of the CRDT library, as the constructor uses it: a handler is
  registered on one object; a change of a Y.Array calls the handlers registered on that
  array, and setting a key of \<open>yBlock\<close> calls the handlers registered on \<open>yBlock\<close> with the
  set of the keys that changed. A Y.Array that has been replaced under \<open>sys:children\<close> is
  deleted by the library: it is empty from then on, it changes no more and its handlers
  are called no more.
\<close>

definition array_change :: "yref \<Rightarrow> block_id list \<Rightarrow> block_model \<Rightarrow> block_model" where
  "array_change a xs m =
     (if a \<in> set (replaced_arrays m) then m
      else let m' = m\<lparr>arrays := (arrays m)(a := xs)\<rparr>
           in fold array_handler (filter (\<lambda>target. target = a) (array_observers m')) m')"

text \<open>
  \<open>yBlock.set('sys:children', a)\<close>. The library accepts a Y.Array that is in no record
  yet: the call is refused, and the record stays as it is, for the array that the record
  holds and for one that it has held before.
\<close>

definition set_sys_children :: "yref \<Rightarrow> block_model \<Rightarrow> block_model" where
  "set_sys_children a m =
     (if a = sys_children m \<or> a \<in> set (replaced_arrays m) then m
      else let m' = m\<lparr>sys_children := a,
                      arrays := (arrays m)(sys_children m := []),
                      replaced_arrays := replaced_arrays m @ [sys_children m]\<rparr>
           in (map_handler {''sys:children''} ^^ map_observers m') m')"

text \<open>
  Modelled from the spec: the code of the document that stores the props and fires
  \<open>propsUpdated\<close> is not among the sources. The spec says that the props are a payload of
  their own, apart from the child ids, and that \<open>propsUpdated\<close> is \<^emph>\<open>fired per mutated prop
  key\<close>: a prop is stored in \<open>yBlock\<close> under a key of its own, never under \<open>sys:children\<close>;
  a change of it calls the handlers registered on \<open>yBlock\<close> with that key, and then the
  document fires \<open>propsUpdated\<close> with the name of the prop.
\<close>

definition prop_key :: "string \<Rightarrow> string" where
  "prop_key key = ''prop:'' @ key"

definition set_prop :: "string \<Rightarrow> block_model \<Rightarrow> block_model" where
  "set_prop key m =
     emit PropsUpdated (Props_updated key) ((map_handler {prop_key key} ^^ map_observers m) m)"

subsection \<open>Runs of one model\<close>

datatype event =
  Fire_created
  | Fire_deleted
  | Dispose
  | Symbol_dispose
  | Array_change yref "block_id list"
  | Set_sys_children yref
  | Set_prop string
  | Subscribe slot_name nat
  | Watch nat

fun step :: "event \<Rightarrow> block_model \<Rightarrow> block_model" where
  "step Fire_created m = emit Created Created_fired m"
| "step Fire_deleted m = emit Deleted Deleted_fired m"
| "step Dispose m = dispose m"
| "step Symbol_dispose m = symbol_dispose m"
| "step (Array_change a xs) m = array_change a xs m"
| "step (Set_sys_children a) m = set_sys_children a m"
| "step (Set_prop key) m = set_prop key m"
| "step (Subscribe sl l) m = slot_on sl (Listener l) m"
| "step (Watch l) m = m\<lparr>watchers := watchers m @ [l]\<rparr>"

definition run :: "event list \<Rightarrow> block_model \<Rightarrow> block_model" where
  "run es m = fold step es m"

text \<open>The changes of the backing record among the events.\<close>

fun record_mutation :: "event \<Rightarrow> bool" where
  "record_mutation (Array_change a xs) = True"
| "record_mutation (Set_sys_children a) = True"
| "record_mutation (Set_prop key) = True"
| "record_mutation e = False"

fun props_notification :: "nat \<times> notification \<Rightarrow> bool" where
  "props_notification (l, Props_updated key) = True"
| "props_notification (l, v) = False"

fun children_notification :: "nat \<times> notification \<Rightarrow> bool" where
  "children_notification (l, Children_changed ids) = True"
| "children_notification (l, v) = False"

text \<open>
  A notification whose listener subscribes to \<open>propsUpdated\<close> in the course of the given
  events.
\<close>

definition subscribed_after :: "event list \<Rightarrow> nat \<times> notification \<Rightarrow> bool" where
  "subscribed_after es n = (Subscribe PropsUpdated (fst n) \<in> set es)"

subsection \<open>Invariants of a run\<close>

text \<open>The callbacks that a slot holds.\<close>

definition callbacks :: "subscription list \<Rightarrow> callback set" where
  "callbacks subs = fst ` set subs"

text \<open>
  The subscriptions of the \<open>Attach\<close> closure that \<open>created\<close> still holds: the constructor
  makes one, and it is released when it has been called, or by \<open>_onCreated.dispose()\<close>.
\<close>

definition is_attach :: "subscription \<Rightarrow> bool" where
  "is_attach sub = (fst sub = Attach)"

definition pending :: "block_model \<Rightarrow> subscription list" where
  "pending m = filter is_attach (created m)"

text \<open>
  Each slot holds only the closures that the code gives it: \<open>Attach\<close> is given to
  \<open>created\<close> alone and \<open>Teardown\<close> to \<open>deleted\<close> alone.
\<close>

definition slots_ok :: "block_model \<Rightarrow> bool" where
  "slots_ok m =
     (Teardown \<notin> callbacks (created m) \<and> Attach \<notin> callbacks (deleted m) \<and>
      Attach \<notin> callbacks (propsUpdated m) \<and> Teardown \<notin> callbacks (propsUpdated m))"

text \<open>
  The observers of a model are registered by \<open>Attach\<close> alone: while its subscription is
  held there is none, and afterwards there is at most one on a Y.Array and one on \<open>yBlock\<close>.
\<close>

definition wired_once :: "block_model \<Rightarrow> bool" where
  "wired_once m =
     (slots_ok m \<and> length (array_observers m) = map_observers m \<and>
      (pending m = [(Attach, True)] \<and> map_observers m = 0 \<or>
       pending m = [] \<and> map_observers m \<le> 1))"

definition armed :: "block_model \<Rightarrow> bool" where
  "armed m = (pending m = [(Attach, True)] \<or> map_observers m = 1)"

text \<open>The fields that these predicates read.\<close>

definition wiring ::
  "block_model \<Rightarrow> subscription list \<times> subscription list \<times> subscription list \<times> yref list \<times> nat" where
  "wiring m = (created m, deleted m, propsUpdated m, array_observers m, map_observers m)"

text \<open>The events that release the subscription of \<open>Attach\<close> without calling it.\<close>

fun releases :: "event \<Rightarrow> bool" where
  "releases Fire_deleted = True"
| "releases Dispose = True"
| "releases Symbol_dispose = True"
| "releases e = False"

text \<open>
  The fields that the projection of the child ids reads, and the state of a model that
  follows its backing record: its one Y.Array observer is on the array that \<open>yBlock\<close>
  holds, and its child ids are the contents of that array.
\<close>

definition tracked :: "block_model \<Rightarrow> block_id list \<times> yref \<times> (yref \<Rightarrow> block_id list)" where
  "tracked m = (children_ids m, sys_children m, arrays m)"

definition attached :: "block_model \<Rightarrow> bool" where
  "attached m =
     (wired_once m \<and> pending m = [] \<and> array_observers m = [sys_children m] \<and>
      children_ids m = arrays m (sys_children m))"

text \<open>The events that put another Y.Array under \<open>sys:children\<close>.\<close>

fun replaces :: "event \<Rightarrow> bool" where
  "replaces (Set_sys_children a) = True"
| "replaces e = False"

subsection \<open>Example documents\<close>

text \<open>A model whose backing record holds the given child ids, after \<open>created\<close> has fired.\<close>

definition model_of_ids :: "block_id list \<Rightarrow> block_model" where
  "model_of_ids ids = run [Fire_created] (new_model 0 (\<lambda>a. ids))"

text \<open>The chain A, B, C: the models 0, 1 and 2, with B the only child of A and C of B.\<close>

definition chain_doc :: doc where
  "chain_doc =
     \<lparr>blocks = [''B'' \<mapsto> 1, ''C'' \<mapsto> 2],
      models = (\<lambda>r. model_of_ids [])(0 := model_of_ids [''B''], 1 := model_of_ids [''C''])\<rparr>"

text \<open>A model with the child ids a and b in a document that knows a only.\<close>

definition dangling_doc :: doc where
  "dangling_doc =
     \<lparr>blocks = [''a'' \<mapsto> 1],
      models = (\<lambda>r. model_of_ids [])(0 := model_of_ids [''a'', ''b''])\<rparr>"

text \<open>The contents of two Y.Array objects.\<close>

definition ex_arrays :: "yref \<Rightarrow> block_id list" where
  "ex_arrays = (\<lambda>a. [])(0 := [''a''], 1 := [''b''])"

text \<open>
  A model with a subscriber of its children signal and a listener of \<open>propsUpdated\<close>,
  after \<open>created\<close> has fired.
\<close>

definition watched_model :: block_model where
  "watched_model = run [Watch 7, Subscribe PropsUpdated 3, Fire_created] (new_model 0 ex_arrays)"

text \<open>
  A model whose record gets another Y.Array under \<open>sys:children\<close> after \<open>created\<close> has
  fired, and then a change of that array; and a document that holds it and resolves the
  ids a, b and c.
\<close>

definition replaced_model :: block_model where
  "replaced_model =
     run [Fire_created, Set_sys_children 1, Array_change 1 [''b'', ''c'']] (new_model 0 ex_arrays)"

definition replaced_doc :: doc where
  "replaced_doc =
     \<lparr>blocks = [''a'' \<mapsto> 1, ''b'' \<mapsto> 2, ''c'' \<mapsto> 3],
      models = (\<lambda>r. model_of_ids [])(0 := replaced_model)\<rparr>"

section \<open>Properties of the derived values\<close>

lemma children_ids_model_of_ids: "children_ids (model_of_ids ids) = ids"
  by (simp add: model_of_ids_def run_def new_model_def slot_once_def slot_of_def set_slot_def
      emit_def unsubscribe_def write_children_def)

lemma fold_childModels:
  "fold (\<lambda>id value. case getBlock id of Some block \<Rightarrow> value @ [block] | None \<Rightarrow> value) ids acc
     = acc @ List.map_filter getBlock ids"
  by (induction ids arbitrary: acc) (simp_all add: List.map_filter_simps split: option.split)

lemma childModels_map_filter: "childModels getBlock ids = List.map_filter getBlock ids"
  by (simp add: childModels_def fold_childModels)

lemma children_chain_doc:
  "children chain_doc p = (if p = 0 then [1] else if p = 1 then [2] else [])"
  by (simp add: children_def chain_doc_def childModels_map_filter children_ids_model_of_ids
      List.map_filter_simps)

text \<open>
  C4: child ids that the document does not resolve are passed over and nothing is raised:
  \<open>children\<close> is the list of the models of the ids that resolve, in order. With the child
  ids a and b, of which the document knows a only, \<open>children\<close> has length 1 and holds the
  model of a.
\<close>

theorem children_skip_unresolved:
  "children d this = List.map_filter (blocks d) (children_ids (models d this)) \<and>
   (children_ids (models d this) = [''a'', ''b''] \<and> blocks d ''a'' = Some r \<and> blocks d ''b'' = None
      \<longrightarrow> children d this = [r] \<and> length (children d this) = 1)"
  by (simp add: children_def childModels_map_filter List.map_filter_simps)

theorem children_skip_unresolved_witness:
  "children dangling_doc 0 = [1] \<and> length (children dangling_doc 0) = 1"
proof -
  have "children_ids (models dangling_doc 0) = [''a'', ''b''] \<and> blocks dangling_doc ''a'' = Some 1
      \<and> blocks dangling_doc ''b'' = None"
    by (simp add: dangling_doc_def children_ids_model_of_ids)
  with children_skip_unresolved [of dangling_doc 0 1] show ?thesis by blast
qed

lemma lastChild_leaf: "children d this = [] \<Longrightarrow> lastChild d this = Some (Some this)"
  by (subst lastChild.simps) simp

lemma lastChild_descend:
  "children d this \<noteq> [] \<Longrightarrow> lastChild d this = lastChild d (last (children d this))"
  by (subst lastChild.simps) (simp add: last_conv_nth)

lemma lastChild_result:
  "lastChild d this = Some res \<Longrightarrow>
     \<exists>leaf. res = Some leaf \<and> children d leaf = [] \<and> (leaf, this) \<in> (last_rel d)\<^sup>*"
proof (induction rule: lastChild.raw_induct[rotated 1, consumes 1])
  case (1 lastChild' d this res)
  show ?case
  proof (cases "children d this = []")
    case True
    with 1(2) show ?thesis by auto
  next
    case False
    let ?c = "children d this ! (length (children d this) - 1)"
    from False 1(2) have "lastChild' d ?c = Some res" by simp
    from 1(1)[OF this] obtain leaf where
      l: "res = Some leaf" "children d leaf = []" "(leaf, ?c) \<in> (last_rel d)\<^sup>*" by blast
    from False have "(?c, this) \<in> last_rel d" by (simp add: last_rel_def last_conv_nth)
    with l(3) have "(leaf, this) \<in> (last_rel d)\<^sup>*" by (rule rtrancl_into_rtrancl)
    with l show ?thesis by simp
  qed
qed



text \<open>
  C6: \<open>isEmpty\<close> is true exactly when the resolved \<open>children\<close> list is empty; in
  particular a \<open>children\<close> list of length 0 makes it true.
\<close>

theorem isEmpty_iff:
  "isEmpty d this = (children d this = []) \<and> (length (children d this) = 0 \<longrightarrow> isEmpty d this)"
  by (simp add: isEmpty_def)

theorem isEmpty_iff_witness:
  "length (children chain_doc 2) = 0 \<and> isEmpty chain_doc 2 \<and> \<not> isEmpty chain_doc 0"
  using isEmpty_iff [of chain_doc 2] isEmpty_iff [of chain_doc 0]
  by (simp add: children_chain_doc)

text \<open>
  C7: \<open>firstChild\<close> returns \<open>null\<close> on a model without resolved children and the first
  resolved child otherwise.
\<close>

theorem firstChild_cases:
  "(children d this = [] \<longrightarrow> firstChild d this = None) \<and>
   (children d this \<noteq> [] \<longrightarrow> firstChild d this = Some (hd (children d this)))"
  by (simp add: firstChild_def hd_conv_nth)

theorem firstChild_cases_witness:
  "children chain_doc 2 = [] \<and> firstChild chain_doc 2 = None \<and>
   children chain_doc 0 \<noteq> [] \<and> firstChild chain_doc 0 = Some 1"
  using firstChild_cases [of chain_doc 2] firstChild_cases [of chain_doc 0]
  by (simp add: children_chain_doc)

lemma reduce_from_other:
  assumes f: "\<And>m x i. f m x i = m(x \<mapsto> i)"
  shows "x \<notin> set xs \<Longrightarrow> reduce_from f k xs acc x = acc x"
proof (induction xs arbitrary: k acc)
  case Nil
  show ?case by (simp only: reduce_from.simps)
next
  case (Cons y ys)
  from Cons.prems have ne: "x \<noteq> y" and notin: "x \<notin> set ys" by simp_all
  have "reduce_from f k (y # ys) acc x = reduce_from f (Suc k) ys (f acc y k) x"
    by (simp only: reduce_from.simps)
  also have "\<dots> = f acc y k x" by (rule Cons.IH [OF notin])
  also have "\<dots> = (acc(y \<mapsto> k)) x" by (simp only: f)
  also from ne have "\<dots> = acc x" by (rule fun_upd_other)
  finally show ?case .
qed

lemma reduce_from_nth:
  assumes f: "\<And>m x i. f m x i = m(x \<mapsto> i)"
  shows "distinct xs \<Longrightarrow> i < length xs \<Longrightarrow> reduce_from f k xs acc (xs ! i) = Some (k + i)"
proof (induction xs arbitrary: k acc i)
  case Nil
  then show ?case by simp
next
  case (Cons x xs)
  have unfold: "reduce_from f k (x # xs) acc = reduce_from f (Suc k) xs (f acc x k)"
    by (simp only: reduce_from.simps)
  show ?case
  proof (cases i)
    case 0
    from Cons.prems have "x \<notin> set xs" by simp
    then have "reduce_from f (Suc k) xs (f acc x k) x = f acc x k x"
      by (rule reduce_from_other [OF f])
    also have "\<dots> = (acc(x \<mapsto> k)) x" by (simp only: f)
    also have "\<dots> = Some k" by (rule fun_upd_same)
    finally show ?thesis using 0 by (simp only: unfold nth_Cons_0 add_0_right)
  next
    case (Suc j)
    from Cons.prems Suc have "distinct xs" and "j < length xs" by simp_all
    then have "reduce_from f (Suc k) xs (f acc x k) (xs ! j) = Some (Suc k + j)"
      by (rule Cons.IH)
    with Suc show ?thesis by (simp only: unfold nth_Cons_Suc add_Suc add_Suc_right)
  qed
qed

lemma reduce_from_dom:
  assumes f: "\<And>m x i. f m x i = m(x \<mapsto> i)"
  shows "dom (reduce_from f k xs acc) = dom acc \<union> set xs"
proof (induction xs arbitrary: k acc)
  case Nil
  show ?case by simp
next
  case (Cons x xs)
  have "f acc x k = acc(x \<mapsto> k)" by (rule f)
  then have step: "dom (f acc x k) = insert x (dom acc)" by simp
  have "dom (reduce_from f k (x # xs) acc) = dom (reduce_from f (Suc k) xs (f acc x k))"
    by (simp only: reduce_from.simps)
  also have "\<dots> = dom (f acc x k) \<union> set xs" by (rule Cons.IH)
  finally show ?case by (simp add: step)
qed

text \<open>
  C8: when the stored child ids are pairwise distinct, \<open>childMap\<close> maps the id at
  position \<open>i\<close> to \<open>i\<close>, and its keys are the stored child ids and no others.
\<close>

theorem childMap_index:
  "distinct (children_ids (models d this)) \<Longrightarrow>
     (\<forall>i < length (children_ids (models d this)).
        childMap d this (children_ids (models d this) ! i) = Some i) \<and>
     dom (childMap d this) = set (children_ids (models d this))"
  by (simp add: childMap_def reduce_def reduce_from_nth reduce_from_dom)

theorem childMap_index_witness:
  "distinct (children_ids (models dangling_doc 0)) \<and>
   childMap dangling_doc 0 ''a'' = Some 0 \<and> childMap dangling_doc 0 ''b'' = Some 1 \<and>
   dom (childMap dangling_doc 0) = {''a'', ''b''}"
proof -
  have ids: "children_ids (models dangling_doc 0) = [''a'', ''b'']"
    by (simp add: dangling_doc_def children_ids_model_of_ids)
  then have dist: "distinct (children_ids (models dangling_doc 0))" by simp
  from childMap_index [OF dist] have
    all: "\<forall>i < 2. childMap dangling_doc 0 ([''a'', ''b''] ! i) = Some i"
    and dom: "dom (childMap dangling_doc 0) = {''a'', ''b''}"
    by (simp_all add: ids)
  have "(0::nat) < 2" and "(1::nat) < 2" by simp_all
  with all have "childMap dangling_doc 0 ([''a'', ''b''] ! 0) = Some 0"
    and "childMap dangling_doc 0 ([''a'', ''b''] ! 1) = Some 1" by blast+
  then have "childMap dangling_doc 0 ''a'' = Some 0" and "childMap dangling_doc 0 ''b'' = Some 1"
    by simp_all
  with dist dom show ?thesis by simp
qed

lemma lastChild_returns:
  assumes wf: "wf (tree_rel d this)"
  shows "(p, this) \<in> (child_rel d)\<^sup>* \<Longrightarrow> \<exists>leaf. lastChild d p = Some (Some leaf)"
  using wf
proof (induction p rule: wf_induct_rule)
  case (less p)
  show ?case
  proof (cases "children d p = []")
    case True
    then show ?thesis by (simp add: lastChild_leaf)
  next
    case False
    let ?c = "last (children d p)"
    from False have mem: "?c \<in> set (children d p)" by simp
    with less.prems have "(?c, p) \<in> tree_rel d this" by (simp add: tree_rel_def)
    moreover from mem have "(?c, p) \<in> child_rel d" by (simp add: child_rel_def)
    with less.prems have "(?c, this) \<in> (child_rel d)\<^sup>*"
      by (meson converse_rtrancl_into_rtrancl)
    ultimately have "\<exists>leaf. lastChild d ?c = Some (Some leaf)" by (rule less.IH)
    with False show ?thesis by (simp add: lastChild_descend)
  qed
qed

lemma tree_rel_chain_doc: "tree_rel chain_doc this \<subseteq> {(1, 0), (2, 1)}"
  by (auto simp add: tree_rel_def children_chain_doc split: if_splits)

text \<open>
  C10: on a model whose children tree is finite and acyclic, \<open>lastChild\<close> returns, and
  what it returns is a model, never the \<open>null\<close> of its declared result type: a childless
  model reached from this one by last-child steps, and the model itself when it is
  childless.
\<close>

theorem lastChild_never_null:
  "finite (tree_rel d this) \<Longrightarrow> acyclic (tree_rel d this) \<Longrightarrow>
     (\<exists>leaf. lastChild d this = Some (Some leaf) \<and> children d leaf = [] \<and>
        (leaf, this) \<in> (last_rel d)\<^sup>*) \<and>
     lastChild d this \<noteq> Some None \<and>
     (children d this = [] \<longrightarrow> lastChild d this = Some (Some this))"
proof -
  assume "finite (tree_rel d this)" and "acyclic (tree_rel d this)"
  then have "wf (tree_rel d this)" by (rule finite_acyclic_wf)
  from lastChild_returns [OF this, of this] obtain leaf where
    leaf: "lastChild d this = Some (Some leaf)" by auto
  from lastChild_result [OF leaf]
  have "children d leaf = []" and "(leaf, this) \<in> (last_rel d)\<^sup>*" by simp_all
  with leaf show ?thesis by (auto simp add: lastChild_leaf)
qed

theorem lastChild_never_null_witness:
  "finite (tree_rel chain_doc 0) \<and> acyclic (tree_rel chain_doc 0) \<and>
   (\<exists>leaf. lastChild chain_doc 0 = Some (Some leaf) \<and> children chain_doc leaf = []) \<and>
   lastChild chain_doc 0 \<noteq> Some None \<and>
   finite (tree_rel chain_doc 2) \<and> acyclic (tree_rel chain_doc 2) \<and>
   children chain_doc 2 = [] \<and> lastChild chain_doc 2 = Some (Some 2)"
proof -
  have fin: "finite (tree_rel chain_doc this)" for this
    by (rule finite_subset [OF tree_rel_chain_doc]) simp
  have "tree_rel chain_doc this \<subseteq> measure (\<lambda>r. 3 - r)" for this
    using tree_rel_chain_doc [of this] by auto
  then have "wf (tree_rel chain_doc this)" for this by (rule wf_subset [OF wf_measure])
  then have acy: "acyclic (tree_rel chain_doc this)" for this by (rule wf_acyclic)
  have leaf: "children chain_doc 2 = []" by (simp add: children_chain_doc)
  from lastChild_never_null [OF fin acy, of 0] lastChild_never_null [OF fin acy, of 2] leaf
    fin [of 0] fin [of 2] acy [of 0] acy [of 2]
  show ?thesis by blast
qed

section \<open>Properties of the lifecycle\<close>

subsection \<open>Fields after the basic operations\<close>

lemmas model_defs =
  run_def new_model_def slot_once_def slot_on_def slot_of_def set_slot_def emit_def
  unsubscribe_def write_children_def dispose_def slot_dispose_def symbol_dispose_def
  array_change_def set_sys_children_def set_prop_def prop_key_def array_handler_def
  map_handler_def

lemma set_slot_fields:
  "created (set_slot sl subs m) = (if sl = Created then subs else created m)"
  "deleted (set_slot sl subs m) = (if sl = Deleted then subs else deleted m)"
  "propsUpdated (set_slot sl subs m) = (if sl = PropsUpdated then subs else propsUpdated m)"
  "children_ids (set_slot sl subs m) = children_ids m"
  "sys_children (set_slot sl subs m) = sys_children m"
  "arrays (set_slot sl subs m) = arrays m"
  "replaced_arrays (set_slot sl subs m) = replaced_arrays m"
  "array_observers (set_slot sl subs m) = array_observers m"
  "map_observers (set_slot sl subs m) = map_observers m"
  "watchers (set_slot sl subs m) = watchers m"
  "seen (set_slot sl subs m) = seen m"
  by (cases sl; simp add: set_slot_def)+

lemma slot_of_set_slot: "slot_of sl' (set_slot sl subs m) = (if sl' = sl then subs else slot_of sl' m)"
  by (cases sl; cases sl'; simp add: slot_of_def set_slot_def)

lemma write_children_fields:
  "created (write_children ids m) = created m"
  "deleted (write_children ids m) = deleted m"
  "propsUpdated (write_children ids m) = propsUpdated m"
  "children_ids (write_children ids m) = ids"
  "sys_children (write_children ids m) = sys_children m"
  "arrays (write_children ids m) = arrays m"
  "replaced_arrays (write_children ids m) = replaced_arrays m"
  "array_observers (write_children ids m) = array_observers m"
  "map_observers (write_children ids m) = map_observers m"
  "watchers (write_children ids m) = watchers m"
  "filter props_notification (seen (write_children ids m)) = filter props_notification (seen m)"
  by (simp_all add: write_children_def filter_empty_conv)

lemma run_simps:
  "run [] m = m"
  "run (e # es) m = run es (step e m)"
  "run (es1 @ es2) m = run es2 (run es1 m)"
  by (simp_all add: run_def)

lemma deliver_preserves:
  assumes "P m"
    and "\<And>sub m. sub \<in> set subs \<Longrightarrow> P m \<Longrightarrow> P (call (fst sub) v m)"
    and "\<And>sub m. sub \<in> set subs \<Longrightarrow> P m \<Longrightarrow> P (unsubscribe sl sub m)"
  shows "P (deliver sl v subs m)"
  using assms
proof (induction subs arbitrary: m)
  case Nil
  then show ?case by simp
next
  case (Cons sub subs)
  have "P (call (fst sub) v m)" using Cons.prems(1,2) by simp
  then have "P (if snd sub then unsubscribe sl sub (call (fst sub) v m) else call (fst sub) v m)"
    using Cons.prems(3) by simp
  then have "P (deliver sl v subs
      (if snd sub then unsubscribe sl sub (call (fst sub) v m) else call (fst sub) v m))"
    using Cons.prems(2,3) by (intro Cons.IH) simp_all
  then show ?case by (simp add: Let_def)
qed

subsection \<open>Disposal\<close>

text \<open>
  C9: \<open>dispose()\<close> may be called again: the model is total, so nothing is raised, and the
  second call leaves the state of the model as the first call left it.
\<close>

theorem dispose_idempotent:
  "dispose (dispose m) = dispose m \<and> run [Dispose, Dispose] m = run [Dispose] m"
  by (simp add: run_def dispose_def slot_dispose_def set_slot_def)

theorem dispose_idempotent_witness:
  "dispose (dispose watched_model) = dispose watched_model \<and>
   propsUpdated watched_model = [(Listener 3, False)] \<and> propsUpdated (dispose watched_model) = []"
  using dispose_idempotent [of watched_model]
  by (simp add: watched_model_def model_defs)

lemma map_handler_props:
  "propsUpdated (map_handler keys m) = propsUpdated m"
  "filter props_notification (seen (map_handler keys m)) = filter props_notification (seen m)"
  by (simp_all add: map_handler_def write_children_fields)

lemma array_handler_props:
  "propsUpdated (array_handler target m) = propsUpdated m"
  "filter props_notification (seen (array_handler target m)) = filter props_notification (seen m)"
  by (simp_all add: array_handler_def write_children_fields)

lemma funpow_map_handler_props:
  "propsUpdated ((map_handler keys ^^ n) m) = propsUpdated m \<and>
   filter props_notification (seen ((map_handler keys ^^ n) m)) = filter props_notification (seen m)"
  by (induction n) (simp_all add: map_handler_props)

lemma fold_array_handler_props:
  "propsUpdated (fold array_handler ts m) = propsUpdated m \<and>
   filter props_notification (seen (fold array_handler ts m)) = filter props_notification (seen m)"
  by (induction ts arbitrary: m) (simp_all add: array_handler_props)

lemma array_change_props:
  "propsUpdated (array_change a xs m) = propsUpdated m"
  "filter props_notification (seen (array_change a xs m)) = filter props_notification (seen m)"
  using fold_array_handler_props
    [where ts = "filter (\<lambda>target. target = a) (array_observers m)"
       and m = "m\<lparr>arrays := (arrays m)(a := xs)\<rparr>"]
  by (simp_all add: array_change_def)

lemma set_sys_children_props:
  "propsUpdated (set_sys_children a m) = propsUpdated m"
  "filter props_notification (seen (set_sys_children a m)) = filter props_notification (seen m)"
  using funpow_map_handler_props
    [where keys = "{''sys:children''}" and n = "map_observers m"
       and m = "m\<lparr>sys_children := a, arrays := (arrays m)(sys_children m := []),
                  replaced_arrays := replaced_arrays m @ [sys_children m]\<rparr>"]
  by (simp_all add: set_sys_children_def)

text \<open>An emit of \<open>created\<close> or \<open>deleted\<close> tells no listener of a prop.\<close>

lemma call_other_payload:
  assumes "\<And>l. \<not> props_notification (l, v)"
  shows "propsUpdated (call cb v m) = propsUpdated m"
    and "filter props_notification (seen (call cb v m)) = filter props_notification (seen m)"
  using assms
  by (cases cb; simp add: Let_def write_children_fields unsubscribe_def set_slot_fields)+

lemma emit_other_slot:
  assumes sl: "sl \<noteq> PropsUpdated" and v: "\<And>l. \<not> props_notification (l, v)"
  shows "propsUpdated (emit sl v m) = propsUpdated m"
    and "filter props_notification (seen (emit sl v m)) = filter props_notification (seen m)"
proof -
  have "propsUpdated (emit sl v m) = propsUpdated m \<and>
      filter props_notification (seen (emit sl v m)) = filter props_notification (seen m)"
    unfolding emit_def
    by (rule deliver_preserves
        [where P = "\<lambda>m'. propsUpdated m' = propsUpdated m \<and>
          filter props_notification (seen m') = filter props_notification (seen m)"])
      (simp_all add: call_other_payload [OF v] unsubscribe_def set_slot_fields sl
        del: call.simps)
  then show "propsUpdated (emit sl v m) = propsUpdated m"
    and "filter props_notification (seen (emit sl v m)) = filter props_notification (seen m)"
    by simp_all
qed

text \<open>
  An emit of \<open>propsUpdated\<close> tells the listeners that the slot holds, and no others.
\<close>

lemma deliver_props_listeners:
  assumes "callbacks subs \<subseteq> Listener ` S"
  shows "\<exists>late. filter props_notification (seen (deliver PropsUpdated v subs m)) =
             filter props_notification (seen m) @ late \<and>
           (\<forall>n \<in> set late. fst n \<in> S) \<and>
           set (propsUpdated (deliver PropsUpdated v subs m)) \<subseteq> set (propsUpdated m)"
  using assms
proof (induction subs arbitrary: m)
  case Nil
  show ?case by simp
next
  case (Cons sub subs)
  from Cons.prems obtain l where l: "fst sub = Listener l" "l \<in> S"
    by (auto simp add: callbacks_def)
  from Cons.prems have rest: "callbacks subs \<subseteq> Listener ` S" by (auto simp add: callbacks_def)
  let ?m2 = "if snd sub then unsubscribe PropsUpdated sub (call (fst sub) v m)
             else call (fst sub) v m"
  have seen2: "seen ?m2 = seen m @ [(l, v)]"
    by (simp add: l unsubscribe_def set_slot_fields)
  have slot2: "set (propsUpdated ?m2) \<subseteq> set (propsUpdated m)"
    using set_remove1_subset [of sub "propsUpdated m"]
    by (simp add: l unsubscribe_def set_slot_fields slot_of_def)
  from Cons.IH [OF rest, of ?m2] obtain late where
    late: "filter props_notification (seen (deliver PropsUpdated v subs ?m2)) =
        filter props_notification (seen ?m2) @ late"
      "\<forall>n \<in> set late. fst n \<in> S"
      "set (propsUpdated (deliver PropsUpdated v subs ?m2)) \<subseteq> set (propsUpdated ?m2)"
    by blast
  have step: "deliver PropsUpdated v (sub # subs) m = deliver PropsUpdated v subs ?m2"
    by (simp add: Let_def)
  let ?late = "filter props_notification [(l, v)] @ late"
  have "filter props_notification (seen (deliver PropsUpdated v (sub # subs) m)) =
      filter props_notification (seen m) @ ?late"
    by (simp only: step late(1) seen2 filter_append append_assoc)
  moreover have "\<forall>n \<in> set ?late. fst n \<in> S" using late(2) l(2) by auto
  moreover have "set (propsUpdated (deliver PropsUpdated v (sub # subs) m)) \<subseteq> set (propsUpdated m)"
    using late(3) slot2 unfolding step by blast
  ultimately show ?case by blast
qed

lemma callbacks_mono: "set subs' \<subseteq> set subs \<Longrightarrow> callbacks subs' \<subseteq> callbacks subs"
  by (auto simp add: callbacks_def)

lemma step_props_late:
  assumes sub: "callbacks (propsUpdated m) \<subseteq> Listener ` S"
  shows "callbacks (propsUpdated (step e m)) \<subseteq> Listener ` (S \<union> {l. e = Subscribe PropsUpdated l}) \<and>
         (\<exists>late. filter props_notification (seen (step e m)) =
                    filter props_notification (seen m) @ late \<and>
                  (\<forall>n \<in> set late. fst n \<in> S))"
proof -
  have same: ?thesis
    if "propsUpdated (step e m) = propsUpdated m"
      and "filter props_notification (seen (step e m)) = filter props_notification (seen m)"
  proof -
    from sub that(1) have "callbacks (propsUpdated (step e m))
        \<subseteq> Listener ` (S \<union> {l. e = Subscribe PropsUpdated l})" by auto
    moreover from that(2) have "filter props_notification (seen (step e m)) =
        filter props_notification (seen m) @ [] \<and> (\<forall>n \<in> set []. fst n \<in> S)" by simp
    ultimately show ?thesis by blast
  qed
  show ?thesis
  proof (cases e)
    case Fire_created
    show ?thesis
      by (rule same) (simp_all add: Fire_created emit_other_slot)
  next
    case Fire_deleted
    show ?thesis
      by (rule same) (simp_all add: Fire_deleted emit_other_slot)
  next
    case Dispose
    then show ?thesis
      by (simp add: dispose_def slot_dispose_def set_slot_fields callbacks_def)
  next
    case Symbol_dispose
    show ?thesis
      by (rule same) (simp_all add: Symbol_dispose symbol_dispose_def unsubscribe_def set_slot_fields)
  next
    case (Array_change a xs)
    show ?thesis
      by (rule same) (simp_all add: Array_change array_change_props)
  next
    case (Set_sys_children a)
    show ?thesis
      by (rule same) (simp_all add: Set_sys_children set_sys_children_props)
  next
    case (Set_prop key)
    let ?m' = "(map_handler {prop_key key} ^^ map_observers m) m"
    from funpow_map_handler_props [where keys = "{prop_key key}" and n = "map_observers m" and m = m]
    have p': "propsUpdated ?m' = propsUpdated m"
      and s': "filter props_notification (seen ?m') = filter props_notification (seen m)"
      by simp_all
    from sub p' have "callbacks (propsUpdated ?m') \<subseteq> Listener ` S" by simp
    from deliver_props_listeners [OF this, of "Props_updated key" ?m'] obtain late where
      late: "filter props_notification (seen (deliver PropsUpdated (Props_updated key) (propsUpdated ?m') ?m')) =
          filter props_notification (seen ?m') @ late"
        "\<forall>n \<in> set late. fst n \<in> S"
        "set (propsUpdated (deliver PropsUpdated (Props_updated key) (propsUpdated ?m') ?m'))
          \<subseteq> set (propsUpdated ?m')"
      by blast
    have st: "step e m = deliver PropsUpdated (Props_updated key) (propsUpdated ?m') ?m'"
      by (simp add: Set_prop set_prop_def emit_def slot_of_def)
    from callbacks_mono [OF late(3)] sub p'
    have "callbacks (propsUpdated (step e m)) \<subseteq> Listener ` (S \<union> {l. e = Subscribe PropsUpdated l})"
      by (simp only: st) auto
    moreover from late(1) s' have "filter props_notification (seen (step e m)) =
        filter props_notification (seen m) @ late" by (simp only: st)
    ultimately show ?thesis using late(2) by blast
  next
    case (Subscribe sl l)
    have "callbacks (propsUpdated (step e m)) \<subseteq> Listener ` (S \<union> {l. e = Subscribe PropsUpdated l})"
      using sub by (cases sl) (auto simp add: Subscribe slot_on_def set_slot_fields slot_of_def
          callbacks_def)
    moreover have "filter props_notification (seen (step e m)) =
        filter props_notification (seen m) @ [] \<and> (\<forall>n \<in> set []. fst n \<in> S)"
      by (simp add: Subscribe slot_on_def set_slot_fields)
    ultimately show ?thesis by blast
  next
    case (Watch l)
    show ?thesis by (rule same) (simp_all add: Watch)
  qed
qed

lemma run_props_late:
  assumes "callbacks (propsUpdated m) \<subseteq> Listener ` S"
  shows "\<exists>late. filter props_notification (seen (run es m)) =
             filter props_notification (seen m) @ late \<and>
           (\<forall>n \<in> set late. fst n \<in> S \<or> Subscribe PropsUpdated (fst n) \<in> set es)"
  using assms
proof (induction es arbitrary: m S)
  case Nil
  show ?case by (simp add: run_simps)
next
  case (Cons e es)
  let ?S' = "S \<union> {l. e = Subscribe PropsUpdated l}"
  from step_props_late [OF Cons.prems, of e] obtain late1 where
    slot: "callbacks (propsUpdated (step e m)) \<subseteq> Listener ` ?S'"
    and late1: "filter props_notification (seen (step e m)) =
        filter props_notification (seen m) @ late1" "\<forall>n \<in> set late1. fst n \<in> S"
    by blast
  from Cons.IH [OF slot] obtain late2 where
    late2: "filter props_notification (seen (run es (step e m))) =
        filter props_notification (seen (step e m)) @ late2"
      "\<forall>n \<in> set late2. fst n \<in> ?S' \<or> Subscribe PropsUpdated (fst n) \<in> set es"
    by blast
  have "filter props_notification (seen (run (e # es) m)) =
      filter props_notification (seen m) @ (late1 @ late2)"
    by (simp add: run_simps late1(1) late2(1))
  moreover have "\<forall>n \<in> set (late1 @ late2).
      fst n \<in> S \<or> Subscribe PropsUpdated (fst n) \<in> set (e # es)"
    using late1(2) late2(2) by auto
  ultimately show ?case by blast
qed

text \<open>
  C2, as the claim states it, fails: \<open>dispose()\<close> releases the subscriptions of the three
  slots and leaves the observers on the backing record registered. A model with a
  subscriber of its children signal is disposed after \<open>created\<close> has fired; a change of
  its Y.Array then reaches the subscriber.
\<close>

theorem children_changes_seen_after_dispose:
  "record_mutation (Array_change 0 [''x'']) \<and>
   seen (dispose watched_model) = [(7, Children_changed [''a''])] \<and>
   seen (run [Array_change 0 [''x'']] (dispose watched_model)) =
     [(7, Children_changed [''a'']), (7, Children_changed [''x''])]"
  by (simp add: watched_model_def ex_arrays_def model_defs)

text \<open>
  C2, amended: after \<open>dispose()\<close>, whatever happens to the model and to its backing record,
  a further \<open>propsUpdated\<close> notification is observed by no listener but one that subscribes
  to \<open>propsUpdated\<close> after the call. The call releases every subscription of the three
  slots and nothing else: the observers that the model has registered on the backing
  record stay registered.
\<close>

theorem dispose_silences_propsUpdated:
  "(\<exists>late. filter props_notification (seen (run es (dispose m))) =
             filter props_notification (seen m) @ late \<and>
           list_all (subscribed_after es) late) \<and>
   created (dispose m) = [] \<and> deleted (dispose m) = [] \<and> propsUpdated (dispose m) = [] \<and>
   array_observers (dispose m) = array_observers m \<and>
   map_observers (dispose m) = map_observers m"
proof -
  have "callbacks (propsUpdated (dispose m)) \<subseteq> Listener ` {}"
    by (simp add: dispose_def slot_dispose_def set_slot_fields callbacks_def)
  from run_props_late [OF this, of es] obtain late where
    "filter props_notification (seen (run es (dispose m))) =
        filter props_notification (seen (dispose m)) @ late"
    and "\<forall>n \<in> set late. Subscribe PropsUpdated (fst n) \<in> set es"
    by auto
  moreover have "seen (dispose m) = seen m"
    by (simp add: dispose_def slot_dispose_def set_slot_fields)
  ultimately have "\<exists>late. filter props_notification (seen (run es (dispose m))) =
      filter props_notification (seen m) @ late \<and> list_all (subscribed_after es) late"
    by (auto simp add: list_all_iff subscribed_after_def)
  then show ?thesis by (simp add: dispose_def slot_dispose_def set_slot_fields)
qed

theorem dispose_silences_propsUpdated_witness:
  "seen (run [Set_prop ''x''] watched_model) =
     [(7, Children_changed [''a'']), (3, Props_updated ''x'')] \<and>
   filter props_notification
     (seen (run [Set_prop ''x'', Fire_created, Array_change 0 [''y''], Dispose, Set_prop ''z'']
        (dispose watched_model))) = [] \<and>
   filter props_notification
     (seen (run [Subscribe PropsUpdated 4, Set_prop ''k''] (dispose watched_model))) =
     [(4, Props_updated ''k'')] \<and>
   subscribed_after [Subscribe PropsUpdated 4, Set_prop ''k''] (4, Props_updated ''k'') \<and>
   array_observers (dispose watched_model) = [0] \<and> map_observers (dispose watched_model) = 1"
  using dispose_silences_propsUpdated
    [of "[Set_prop ''x'', Fire_created, Array_change 0 [''y''], Dispose, Set_prop ''z'']" watched_model]
    dispose_silences_propsUpdated [of "[Subscribe PropsUpdated 4, Set_prop ''k'']" watched_model]
  by (simp add: watched_model_def ex_arrays_def model_defs subscribed_after_def)

subsection \<open>The one-shot hook\<close>

lemma wiring_cong:
  assumes "wiring m' = wiring m"
  shows "wired_once m' = wired_once m" and "pending m' = pending m" and "slots_ok m' = slots_ok m"
    and "armed m' = armed m"
  using assms by (simp_all add: wiring_def wired_once_def pending_def slots_ok_def armed_def)

lemma wiring_write_children: "wiring (write_children ids m) = wiring m"
  by (simp add: wiring_def write_children_fields)

lemma wiring_map_handler: "wiring (map_handler keys m) = wiring m"
  by (simp add: map_handler_def wiring_write_children)

lemma wiring_array_handler: "wiring (array_handler target m) = wiring m"
  by (simp add: array_handler_def wiring_write_children)

lemma wiring_funpow_map_handler: "wiring ((map_handler keys ^^ n) m) = wiring m"
  by (induction n) (simp_all add: wiring_map_handler)

lemma wiring_fold_array_handler: "wiring (fold array_handler ts m) = wiring m"
  by (induction ts arbitrary: m) (simp_all add: wiring_array_handler)

lemma wiring_array_change: "wiring (array_change a xs m) = wiring m"
  by (simp add: array_change_def Let_def wiring_fold_array_handler) (simp add: wiring_def)

lemma wiring_set_sys_children: "wiring (set_sys_children a m) = wiring m"
  by (simp add: set_sys_children_def Let_def wiring_funpow_map_handler) (simp add: wiring_def)

lemma wiring_listener: "wiring (call (Listener l) v m) = wiring m"
  by (simp add: wiring_def)

lemma wiring_watch: "wiring (m\<lparr>watchers := ws\<rparr>) = wiring m"
  by (simp add: wiring_def)

lemma wiring_dispose:
  "created (dispose m) = []" "deleted (dispose m) = []" "propsUpdated (dispose m) = []"
  "array_observers (dispose m) = array_observers m" "map_observers (dispose m) = map_observers m"
  by (simp_all add: dispose_def slot_dispose_def set_slot_fields)

lemma callbacks_remove1: "cb \<notin> callbacks subs \<Longrightarrow> cb \<notin> callbacks (remove1 sub subs)"
  using set_remove1_subset [of sub subs] by (auto simp add: callbacks_def)

lemma not_in_callbacks: "cb \<notin> callbacks subs \<Longrightarrow> sub \<in> set subs \<Longrightarrow> fst sub \<noteq> cb"
  by (force simp add: callbacks_def)

lemma pending_empty_iff: "pending m = [] \<longleftrightarrow> Attach \<notin> callbacks (created m)"
  by (force simp add: pending_def callbacks_def is_attach_def filter_empty_conv)

lemma pending_unsubscribe:
  "pending (unsubscribe sl sub m) = (if sl = Created then remove1 sub (pending m) else pending m)"
  by (simp add: pending_def unsubscribe_def set_slot_fields slot_of_def filter_remove1)

lemma observers_unsubscribe:
  "array_observers (unsubscribe sl sub m) = array_observers m"
  "map_observers (unsubscribe sl sub m) = map_observers m"
  by (simp_all add: unsubscribe_def set_slot_fields)

lemma slots_ok_unsubscribe: "slots_ok m \<Longrightarrow> slots_ok (unsubscribe sl sub m)"
  by (cases sl) (simp_all add: slots_ok_def unsubscribe_def set_slot_fields slot_of_def
      callbacks_remove1)

lemma wired_once_unsubscribe:
  assumes "wired_once m"
  shows "wired_once (unsubscribe sl sub m)"
proof -
  from assms have ok: "slots_ok (unsubscribe sl sub m)"
    by (simp add: wired_once_def slots_ok_unsubscribe)
  have "remove1 sub [(Attach, True)] = [] \<or> remove1 sub [(Attach, True)] = [(Attach, True)]"
    by simp
  with assms ok show ?thesis
    by (auto simp add: wired_once_def pending_unsubscribe observers_unsubscribe)
qed

lemma wired_once_call:
  assumes "wired_once m" and "cb \<noteq> Attach"
  shows "wired_once (call cb v m)"
proof (cases cb)
  case Attach
  with assms(2) show ?thesis by simp
next
  case Teardown
  with assms(1) show ?thesis by (simp add: wired_once_unsubscribe)
next
  case (Listener l)
  with assms(1) wiring_cong(1) [OF wiring_listener] show ?thesis by simp
qed

lemma pending_call: "pending m = [] \<Longrightarrow> pending (call cb v m) = []"
  by (cases cb) (simp_all add: pending_def write_children_fields Let_def pending_unsubscribe
      [unfolded pending_def])

lemma observers_call:
  "cb \<noteq> Attach \<Longrightarrow> array_observers (call cb v m) = array_observers m"
  "cb \<noteq> Attach \<Longrightarrow> map_observers (call cb v m) = map_observers m"
  by (cases cb; simp add: observers_unsubscribe)+

lemma call_attach_fields:
  "created (call Attach v m) = created m"
  "deleted (call Attach v m) = deleted m"
  "propsUpdated (call Attach v m) = propsUpdated m"
  "array_observers (call Attach v m) = array_observers m @ [sys_children m]"
  "map_observers (call Attach v m) = Suc (map_observers m)"
  by (simp_all add: Let_def write_children_fields)

text \<open>
  Firing \<open>created\<close>: the emit goes through the subscriptions that the slot held when it
  began, and the \<open>Attach\<close> subscription among them, if any, is called and released.
\<close>

lemma deliver_created:
  assumes "wired_once m" and "Teardown \<notin> callbacks subs" and "filter is_attach subs = pending m"
  shows "wired_once (deliver Created v subs m) \<and> pending (deliver Created v subs m) = [] \<and>
         map_observers (deliver Created v subs m) = map_observers m + length (pending m)"
  using assms
proof (induction subs arbitrary: m)
  case Nil
  then show ?case by simp
next
  case (Cons sub subs)
  let ?m1 = "call (fst sub) v m"
  let ?m2 = "if snd sub then unsubscribe Created sub ?m1 else ?m1"
  from Cons.prems(2) have no_td: "Teardown \<notin> callbacks subs" and not_td: "fst sub \<noteq> Teardown"
    by (auto simp add: callbacks_def)
  have step: "deliver Created v (sub # subs) m = deliver Created v subs ?m2"
    by (simp add: Let_def)
  show ?case
  proof (cases "fst sub = Attach")
    case True
    then have "is_attach sub" by (simp add: is_attach_def)
    with Cons.prems(3) have pend: "pending m = sub # filter is_attach subs"
      by simp
    with Cons.prems(1) have sub: "sub = (Attach, True)" and rest: "filter is_attach subs = []"
      and zero: "map_observers m = 0" and none: "array_observers m = []"
      and ok: "slots_ok m"
      by (auto simp add: wired_once_def)
    have m2: "?m2 = unsubscribe Created (Attach, True) (call Attach v m)"
      by (simp add: sub)
    have pend1: "pending (call Attach v m) = [(Attach, True)]"
      using pend sub rest by (simp add: pending_def call_attach_fields del: call.simps)
    have ok1: "slots_ok (call Attach v m)"
      using ok by (simp add: slots_ok_def call_attach_fields del: call.simps)
    have pend2: "pending ?m2 = []"
      by (simp only: m2 pending_unsubscribe pend1) simp
    have obs2: "map_observers ?m2 = 1" "array_observers ?m2 = [sys_children m]"
      by (simp_all only: m2 observers_unsubscribe call_attach_fields zero none) simp_all
    have "slots_ok ?m2"
      by (simp only: m2) (rule slots_ok_unsubscribe [OF ok1])
    with pend2 obs2 have w2: "wired_once ?m2" by (simp add: wired_once_def)
    from rest pend2 have "filter is_attach subs = pending ?m2" by simp
    from Cons.IH [OF w2 no_td this] pend2 obs2(1) pend rest zero
    show ?thesis by (simp only: step) simp
  next
    case False
    with not_td obtain l where l: "fst sub = Listener l" by (cases "fst sub") simp_all
    have w1: "wired_once ?m1"
      using Cons.prems(1) False by (rule wired_once_call)
    have p1: "pending ?m1 = pending m" and o1: "map_observers ?m1 = map_observers m"
      using wiring_cong(2) [OF wiring_listener] by (simp_all add: l)
    have notin: "sub \<notin> set (pending m)"
      using False by (auto simp add: pending_def is_attach_def)
    have w2: "wired_once ?m2" using w1 by (simp add: wired_once_unsubscribe)
    have p2: "pending ?m2 = pending m"
      using notin p1 by (simp add: pending_unsubscribe remove1_idem)
    have o2: "map_observers ?m2 = map_observers m"
      using o1 by (simp add: observers_unsubscribe)
    from False have "\<not> is_attach sub" by (simp add: is_attach_def)
    with Cons.prems(3) have "filter is_attach subs = pending ?m2"
      by (simp add: p2)
    from Cons.IH [OF w2 no_td this] p2 o2 show ?thesis by (simp only: step)
  qed
qed

lemma fire_created:
  assumes "wired_once m"
  shows "wired_once (step Fire_created m)" and "pending (step Fire_created m) = []"
    and "map_observers (step Fire_created m) = map_observers m + length (pending m)"
proof -
  from assms have "Teardown \<notin> callbacks (created m)" by (simp add: wired_once_def slots_ok_def)
  moreover have "filter is_attach (created m) = pending m" by (simp add: pending_def)
  ultimately have "wired_once (deliver Created Created_fired (created m) m) \<and>
      pending (deliver Created Created_fired (created m) m) = [] \<and>
      map_observers (deliver Created Created_fired (created m) m) = map_observers m + length (pending m)"
    by (rule deliver_created [OF assms])
  then show "wired_once (step Fire_created m)" and "pending (step Fire_created m) = []"
    and "map_observers (step Fire_created m) = map_observers m + length (pending m)"
    by (simp_all add: emit_def slot_of_def)
qed

text \<open>An emit that calls no \<open>Attach\<close>, and an emit that calls listeners only.\<close>

lemma emit_without_attach:
  assumes "Attach \<notin> callbacks (slot_of sl m)"
  shows "wired_once m \<Longrightarrow> wired_once (emit sl v m)"
    and "pending m = [] \<Longrightarrow> pending (emit sl v m) = []"
    and "array_observers (emit sl v m) = array_observers m"
    and "map_observers (emit sl v m) = map_observers m"
proof -
  note na = not_in_callbacks [OF assms]
  show "wired_once m \<Longrightarrow> wired_once (emit sl v m)"
    unfolding emit_def
    by (rule deliver_preserves) (simp_all add: wired_once_call wired_once_unsubscribe na)
  show "pending m = [] \<Longrightarrow> pending (emit sl v m) = []"
    unfolding emit_def
    by (rule deliver_preserves) (simp_all add: pending_call pending_unsubscribe)
  show "array_observers (emit sl v m) = array_observers m"
    unfolding emit_def
    by (rule deliver_preserves [where P = "\<lambda>m'. array_observers m' = array_observers m"])
      (simp_all add: observers_call observers_unsubscribe na)
  show "map_observers (emit sl v m) = map_observers m"
    unfolding emit_def
    by (rule deliver_preserves [where P = "\<lambda>m'. map_observers m' = map_observers m"])
      (simp_all add: observers_call observers_unsubscribe na)
qed

lemma emit_listeners:
  assumes "Attach \<notin> callbacks (slot_of sl m)" and "Teardown \<notin> callbacks (slot_of sl m)"
    and "sl \<noteq> Created"
  shows "pending (emit sl v m) = pending m"
  unfolding emit_def
proof (rule deliver_preserves [where P = "\<lambda>m'. pending m' = pending m"])
  show "pending m = pending m" ..
next
  fix sub m'
  assume sub: "sub \<in> set (slot_of sl m)" and p: "pending m' = pending m"
  from not_in_callbacks [OF assms(1) sub] not_in_callbacks [OF assms(2) sub]
  obtain l where "fst sub = Listener l" by (cases "fst sub") simp_all
  with p wiring_cong(2) [OF wiring_listener] show "pending (call (fst sub) v m') = pending m"
    by simp
next
  fix sub m'
  assume "pending m' = pending m"
  with assms(3) show "pending (unsubscribe sl sub m') = pending m"
    by (simp add: pending_unsubscribe)
qed

lemma props_slot_after_handlers:
  "slot_of PropsUpdated ((map_handler keys ^^ n) m) = propsUpdated m"
  using wiring_funpow_map_handler [where keys = keys and n = n and m = m]
  by (simp add: wiring_def slot_of_def)

lemma wired_once_dispose: "wired_once m \<Longrightarrow> wired_once (dispose m)"
  by (auto simp add: wired_once_def slots_ok_def pending_def callbacks_def wiring_dispose)

lemma slot_on_listener:
  "wired_once m \<Longrightarrow> wired_once (slot_on sl (Listener l) m)"
  "pending (slot_on sl (Listener l) m) = pending m"
  "array_observers (slot_on sl (Listener l) m) = array_observers m"
  "map_observers (slot_on sl (Listener l) m) = map_observers m"
proof -
  have p: "pending (slot_on sl (Listener l) m) = pending m"
    by (cases sl) (simp_all add: pending_def slot_on_def set_slot_fields slot_of_def is_attach_def)
  show "pending (slot_on sl (Listener l) m) = pending m" by (rule p)
  show "array_observers (slot_on sl (Listener l) m) = array_observers m"
    and o: "map_observers (slot_on sl (Listener l) m) = map_observers m"
    by (simp_all add: slot_on_def set_slot_fields)
  assume w: "wired_once m"
  then have "slots_ok (slot_on sl (Listener l) m)"
    by (cases sl) (simp_all add: wired_once_def slots_ok_def slot_on_def set_slot_fields
        slot_of_def callbacks_def)
  with w p show "wired_once (slot_on sl (Listener l) m)"
    by (simp add: wired_once_def slot_on_def set_slot_fields)
qed

lemma wired_once_step:
  assumes "wired_once m"
  shows "wired_once (step e m)"
proof (cases e)
  case Fire_created
  with fire_created(1) [OF assms] show ?thesis by simp
next
  case Fire_deleted
  from assms have "Attach \<notin> callbacks (slot_of Deleted m)"
    by (simp add: wired_once_def slots_ok_def slot_of_def)
  from emit_without_attach(1) [OF this assms] Fire_deleted show ?thesis by simp
next
  case Dispose
  with assms show ?thesis by (simp add: wired_once_dispose)
next
  case Symbol_dispose
  with assms show ?thesis by (simp add: symbol_dispose_def wired_once_unsubscribe)
next
  case (Array_change a xs)
  with assms wiring_cong(1) [OF wiring_array_change] show ?thesis by simp
next
  case (Set_sys_children a)
  with assms wiring_cong(1) [OF wiring_set_sys_children] show ?thesis by simp
next
  case (Set_prop key)
  let ?m' = "(map_handler {prop_key key} ^^ map_observers m) m"
  from assms have w: "wired_once ?m'"
    using wiring_cong(1) [OF wiring_funpow_map_handler] by simp
  from assms have "Attach \<notin> callbacks (slot_of PropsUpdated ?m')"
    by (simp add: props_slot_after_handlers wired_once_def slots_ok_def)
  from emit_without_attach(1) [OF this w] Set_prop show ?thesis by (simp add: set_prop_def)
next
  case (Subscribe sl l)
  with assms show ?thesis by (simp add: slot_on_listener)
next
  case (Watch l)
  with assms wiring_cong(1) [OF wiring_watch] show ?thesis by simp
qed

lemma wired_once_run: "wired_once m \<Longrightarrow> wired_once (run es m)"
  by (induction es arbitrary: m) (simp_all add: run_simps wired_once_step)

text \<open>Once no \<open>Attach\<close> subscription is left, no event registers an observer.\<close>

lemma settled_step:
  assumes w: "wired_once m" and p: "pending m = []"
  shows "pending (step e m) = [] \<and> array_observers (step e m) = array_observers m \<and>
         map_observers (step e m) = map_observers m"
proof (cases e)
  case Fire_created
  from p have na: "Attach \<notin> callbacks (slot_of Created m)"
    by (simp add: pending_empty_iff slot_of_def)
  from emit_without_attach(2-4) [OF na] p Fire_created show ?thesis by simp
next
  case Fire_deleted
  from w have na: "Attach \<notin> callbacks (slot_of Deleted m)"
    by (simp add: wired_once_def slots_ok_def slot_of_def)
  from emit_without_attach(2-4) [OF na] p Fire_deleted show ?thesis by simp
next
  case Dispose
  then show ?thesis by (simp add: pending_def wiring_dispose)
next
  case Symbol_dispose
  with p show ?thesis
    by (simp add: symbol_dispose_def pending_unsubscribe observers_unsubscribe)
next
  case (Array_change a xs)
  with p wiring_cong(2) [OF wiring_array_change, of a xs m] wiring_array_change [of a xs m]
  show ?thesis by (simp add: wiring_def)
next
  case (Set_sys_children a)
  with p wiring_cong(2) [OF wiring_set_sys_children, of a m] wiring_set_sys_children [of a m]
  show ?thesis by (simp add: wiring_def)
next
  case (Set_prop key)
  let ?m' = "(map_handler {prop_key key} ^^ map_observers m) m"
  have wm: "wiring ?m' = wiring m" by (rule wiring_funpow_map_handler)
  then have p': "pending ?m' = []" using p wiring_cong(2) [OF wm] by simp
  from w have na: "Attach \<notin> callbacks (slot_of PropsUpdated ?m')"
    by (simp add: props_slot_after_handlers wired_once_def slots_ok_def)
  from wm have o': "array_observers ?m' = array_observers m" "map_observers ?m' = map_observers m"
    by (simp_all add: wiring_def)
  have "pending (emit PropsUpdated (Props_updated key) ?m') = []"
    by (rule emit_without_attach(2) [OF na p'])
  moreover have "array_observers (emit PropsUpdated (Props_updated key) ?m') = array_observers m"
    by (simp only: emit_without_attach(3) [OF na] o')
  moreover have "map_observers (emit PropsUpdated (Props_updated key) ?m') = map_observers m"
    by (simp only: emit_without_attach(4) [OF na] o')
  ultimately show ?thesis by (simp only: Set_prop step.simps set_prop_def)
next
  case (Subscribe sl l)
  with p show ?thesis by (simp add: slot_on_listener)
next
  case (Watch l)
  with p show ?thesis by (simp add: pending_def)
qed

lemma settled_run:
  "wired_once m \<Longrightarrow> pending m = [] \<Longrightarrow>
     pending (run es m) = [] \<and> array_observers (run es m) = array_observers m \<and>
     map_observers (run es m) = map_observers m"
proof (induction es arbitrary: m)
  case Nil
  then show ?case by (simp add: run_simps)
next
  case (Cons e es)
  from settled_step [OF Cons.prems, of e] Cons.IH [OF wired_once_step [OF Cons.prems(1), of e]]
  show ?case by (simp add: run_simps)
qed

text \<open>Until a release, the \<open>Attach\<close> subscription is held or has run.\<close>

lemma armed_step:
  assumes w: "wired_once m" and a: "armed m" and e: "\<not> releases e"
  shows "armed (step e m)"
proof (cases e)
  case Fire_created
  from w a have "map_observers m + length (pending m) = 1"
    by (auto simp add: wired_once_def armed_def)
  with fire_created(3) [OF w] Fire_created show ?thesis by (simp add: armed_def)
next
  case (Array_change a xs)
  with a wiring_cong(4) [OF wiring_array_change] show ?thesis by simp
next
  case (Set_sys_children a)
  with a wiring_cong(4) [OF wiring_set_sys_children] show ?thesis by simp
next
  case (Set_prop key)
  let ?m' = "(map_handler {prop_key key} ^^ map_observers m) m"
  have wm: "wiring ?m' = wiring m" by (rule wiring_funpow_map_handler)
  from w have na: "Attach \<notin> callbacks (slot_of PropsUpdated ?m')"
    and nt: "Teardown \<notin> callbacks (slot_of PropsUpdated ?m')"
    by (simp_all add: props_slot_after_handlers wired_once_def slots_ok_def)
  have "pending (emit PropsUpdated (Props_updated key) ?m') = pending ?m'"
    by (rule emit_listeners [OF na nt]) simp
  moreover have "map_observers (emit PropsUpdated (Props_updated key) ?m') = map_observers ?m'"
    by (rule emit_without_attach(4) [OF na])
  ultimately have "armed (emit PropsUpdated (Props_updated key) ?m') = armed ?m'"
    by (simp add: armed_def)
  with a wiring_cong(4) [OF wm] Set_prop show ?thesis by (simp add: set_prop_def)
next
  case (Subscribe sl l)
  with a show ?thesis by (simp add: armed_def slot_on_listener)
next
  case (Watch l)
  with a wiring_cong(4) [OF wiring_watch] show ?thesis by simp
qed (use e in simp_all)

lemma armed_run:
  "wired_once m \<Longrightarrow> armed m \<Longrightarrow> \<not> list_ex releases es \<Longrightarrow> armed (run es m)"
proof (induction es arbitrary: m)
  case Nil
  then show ?case by (simp add: run_simps)
next
  case (Cons e es)
  from Cons.prems(3) have e: "\<not> releases e" and es: "\<not> list_ex releases es" by simp_all
  from Cons.IH [OF wired_once_step [OF Cons.prems(1)] armed_step [OF Cons.prems(1,2) e] es]
  show ?case by (simp add: run_simps)
qed

lemma new_model_wired: "wired_once (new_model a arrs)" and new_model_armed: "armed (new_model a arrs)"
  by (simp_all add: wired_once_def armed_def slots_ok_def pending_def callbacks_def is_attach_def
      new_model_def slot_once_def set_slot_def slot_of_def)

text \<open>
  C3, as the claim states it, fails: when \<open>dispose()\<close> has been called before \<open>created\<close>
  fires, the subscription of the attach callback is released already, the callback never
  runs and no observer is registered, although \<open>created\<close> fires and its listeners are told.
\<close>

theorem created_after_dispose_registers_nothing:
  "array_observers (run [Dispose, Fire_created, Fire_created] (new_model 0 ex_arrays)) = [] \<and>
   map_observers (run [Dispose, Fire_created, Fire_created] (new_model 0 ex_arrays)) = 0 \<and>
   children_ids (run [Dispose, Fire_created, Fire_created] (new_model 0 ex_arrays)) = [] \<and>
   seen (run [Dispose, Subscribe Created 5, Fire_created] (new_model 0 ex_arrays)) =
     [(5, Created_fired)] \<and>
   map_observers (run [Dispose, Subscribe Created 5, Fire_created] (new_model 0 ex_arrays)) = 0"
  by (simp add: ex_arrays_def model_defs)

text \<open>
  C3, amended: the \<open>created\<close> hook is one-shot. Once \<open>created\<close> has fired on a model,
  whatever happened before and whatever happens afterwards, firing it again registers no
  observer; a model never has more than one observer on a Y.Array and one on \<open>yBlock\<close>;
  and when no subscription was released (by \<open>dispose()\<close>, by \<open>deleted\<close> or by the scoped
  teardown) before the first firing, it has exactly one of each.
\<close>

theorem created_one_shot:
  "array_observers (step Fire_created (run (es1 @ Fire_created # es2) (new_model a arrs))) =
     array_observers (run (es1 @ Fire_created # es2) (new_model a arrs)) \<and>
   map_observers (step Fire_created (run (es1 @ Fire_created # es2) (new_model a arrs))) =
     map_observers (run (es1 @ Fire_created # es2) (new_model a arrs)) \<and>
   length (array_observers (run es (new_model a arrs))) \<le> 1 \<and>
   map_observers (run es (new_model a arrs)) \<le> 1 \<and>
   (\<not> list_ex releases es1 \<longrightarrow>
      length (array_observers (run (es1 @ Fire_created # es2) (new_model a arrs))) = 1 \<and>
      map_observers (run (es1 @ Fire_created # es2) (new_model a arrs)) = 1)"
proof -
  let ?m1 = "run es1 (new_model a arrs)"
  let ?m2 = "step Fire_created ?m1"
  let ?m = "run (es1 @ Fire_created # es2) (new_model a arrs)"
  have m: "?m = run es2 ?m2" by (simp add: run_simps)
  have w1: "wired_once ?m1" by (rule wired_once_run [OF new_model_wired])
  then have w2: "wired_once ?m2" and p2: "pending ?m2 = []"
    by (rule fire_created(1), rule fire_created(2))
  from settled_run [OF w2 p2, of es2]
  have pm: "pending ?m = []" and om: "array_observers ?m = array_observers ?m2"
    "map_observers ?m = map_observers ?m2"
    by (simp_all only: m)
  have wm: "wired_once ?m" by (simp only: m) (rule wired_once_run [OF w2])
  from settled_step [OF wm pm, of Fire_created]
  have again: "array_observers (step Fire_created ?m) = array_observers ?m"
    "map_observers (step Fire_created ?m) = map_observers ?m" by simp_all
  have "wired_once (run es (new_model a arrs))" by (rule wired_once_run [OF new_model_wired])
  then have bound: "length (array_observers (run es (new_model a arrs))) \<le> 1"
    "map_observers (run es (new_model a arrs)) \<le> 1"
    by (auto simp add: wired_once_def)
  have once: "length (array_observers ?m) = 1 \<and> map_observers ?m = 1" if "\<not> list_ex releases es1"
  proof -
    from armed_run [OF new_model_wired new_model_armed that] have "armed ?m1" .
    with w1 have "map_observers ?m1 + length (pending ?m1) = 1"
      by (auto simp add: wired_once_def armed_def)
    with fire_created(3) [OF w1] have "map_observers ?m2 = 1" by simp
    moreover from w2 have "length (array_observers ?m2) = map_observers ?m2"
      by (simp add: wired_once_def)
    ultimately show ?thesis by (simp only: om)
  qed
  from again bound once show ?thesis by blast
qed

theorem created_one_shot_witness:
  "\<not> list_ex releases [Subscribe Created 5] \<and>
   array_observers (run [Subscribe Created 5, Fire_created, Set_prop ''x''] (new_model 0 ex_arrays)) = [0] \<and>
   array_observers (run [Subscribe Created 5, Fire_created, Set_prop ''x'', Fire_created]
      (new_model 0 ex_arrays)) = [0] \<and>
   map_observers (run [Subscribe Created 5, Fire_created, Set_prop ''x'', Fire_created]
      (new_model 0 ex_arrays)) = 1 \<and>
   seen (run [Subscribe Created 5, Fire_created, Set_prop ''x'', Fire_created]
      (new_model 0 ex_arrays)) = [(5, Created_fired), (5, Created_fired)]"
  using created_one_shot [of "[Subscribe Created 5]" "[Set_prop ''x'']" 0 ex_arrays "[]"]
  by (simp add: ex_arrays_def model_defs)

subsection \<open>The child ids and the backing record\<close>

lemma tracked_unsubscribe: "tracked (unsubscribe sl sub m) = tracked m"
  by (simp add: tracked_def unsubscribe_def set_slot_fields)

lemma tracked_call: "cb \<noteq> Attach \<Longrightarrow> tracked (call cb v m) = tracked m"
  by (cases cb) (simp_all add: tracked_unsubscribe, simp add: tracked_def)

lemma tracked_emit:
  assumes "Attach \<notin> callbacks (slot_of sl m)"
  shows "tracked (emit sl v m) = tracked m"
  unfolding emit_def
  by (rule deliver_preserves [where P = "\<lambda>m'. tracked m' = tracked m"])
    (simp_all add: tracked_call tracked_unsubscribe not_in_callbacks [OF assms])

lemma tracked_map_handler:
  "children_ids m = arrays m (sys_children m) \<Longrightarrow> tracked (map_handler keys m) = tracked m"
  by (simp add: tracked_def map_handler_def write_children_fields)

lemma tracked_funpow_map_handler:
  "children_ids m = arrays m (sys_children m) \<Longrightarrow> tracked ((map_handler keys ^^ n) m) = tracked m"
proof (induction n)
  case 0
  show ?case by simp
next
  case (Suc n)
  from Suc.IH [OF Suc.prems] Suc.prems
  have "children_ids ((map_handler keys ^^ n) m) =
      arrays ((map_handler keys ^^ n) m) (sys_children ((map_handler keys ^^ n) m))"
    by (simp add: tracked_def)
  from tracked_map_handler [OF this] Suc.IH [OF Suc.prems] show ?case by simp
qed

lemma attached_by_parts:
  assumes "attached m" and "wired_once m'" and "pending m' = []"
    and "array_observers m' = array_observers m" and "tracked m' = tracked m"
  shows "attached m'"
  using assms by (simp add: attached_def tracked_def)

lemma attached_step:
  assumes a: "attached m" and e: "\<not> replaces e"
  shows "attached (step e m)"
proof -
  from a have w: "wired_once m" and p: "pending m = []"
    and obs: "array_observers m = [sys_children m]"
    and proj: "children_ids m = arrays m (sys_children m)"
    by (simp_all add: attached_def)
  note w' = wired_once_step [OF w, of e]
  from settled_step [OF w p, of e]
  have p': "pending (step e m) = []" and o': "array_observers (step e m) = array_observers m"
    by simp_all
  show ?thesis
  proof (cases e)
    case Fire_created
    from p have "Attach \<notin> callbacks (slot_of Created m)"
      by (simp add: pending_empty_iff slot_of_def)
    from tracked_emit [OF this] Fire_created have "tracked (step e m) = tracked m" by simp
    with a w' p' o' show ?thesis by (rule attached_by_parts)
  next
    case Fire_deleted
    from w have "Attach \<notin> callbacks (slot_of Deleted m)"
      by (simp add: wired_once_def slots_ok_def slot_of_def)
    from tracked_emit [OF this] Fire_deleted have "tracked (step e m) = tracked m" by simp
    with a w' p' o' show ?thesis by (rule attached_by_parts)
  next
    case Dispose
    then have "tracked (step e m) = tracked m"
      by (simp add: tracked_def dispose_def slot_dispose_def set_slot_fields)
    with a w' p' o' show ?thesis by (rule attached_by_parts)
  next
    case Symbol_dispose
    then have "tracked (step e m) = tracked m"
      by (simp add: symbol_dispose_def tracked_unsubscribe)
    with a w' p' o' show ?thesis by (rule attached_by_parts)
  next
    case (Array_change b xs)
    have "children_ids (array_change b xs m) =
        arrays (array_change b xs m) (sys_children (array_change b xs m))"
      using obs proj
      by (simp add: array_change_def Let_def array_handler_def write_children_fields)
    moreover have "sys_children (array_change b xs m) = sys_children m"
      using obs by (simp add: array_change_def Let_def array_handler_def write_children_fields)
    ultimately show ?thesis using w' p' o' obs Array_change by (simp add: attached_def)
  next
    case (Set_sys_children b)
    with e show ?thesis by simp
  next
    case (Set_prop key)
    let ?m' = "(map_handler {prop_key key} ^^ map_observers m) m"
    from w have "Attach \<notin> callbacks (slot_of PropsUpdated ?m')"
      by (simp add: props_slot_after_handlers wired_once_def slots_ok_def)
    from tracked_emit [OF this] tracked_funpow_map_handler [OF proj] Set_prop
    have "tracked (step e m) = tracked m" by (simp add: set_prop_def)
    with a w' p' o' show ?thesis by (rule attached_by_parts)
  next
    case (Subscribe sl l)
    then have "tracked (step e m) = tracked m"
      by (simp add: tracked_def slot_on_def set_slot_fields)
    with a w' p' o' show ?thesis by (rule attached_by_parts)
  next
    case (Watch l)
    then have "tracked (step e m) = tracked m" by (simp add: tracked_def)
    with a w' p' o' show ?thesis by (rule attached_by_parts)
  qed
qed

lemma attached_run: "attached m \<Longrightarrow> \<not> list_ex replaces es \<Longrightarrow> attached (run es m)"
  by (induction es arbitrary: m) (simp_all add: run_simps attached_step)

lemma attached_after_created: "attached (step Fire_created (new_model a arrs))"
proof -
  have "array_observers (step Fire_created (new_model a arrs)) =
      [sys_children (step Fire_created (new_model a arrs))]"
    and "children_ids (step Fire_created (new_model a arrs)) =
      arrays (step Fire_created (new_model a arrs)) (sys_children (step Fire_created (new_model a arrs)))"
    by (simp_all add: model_defs)
  with fire_created(1,2) [OF new_model_wired, of a arrs] show ?thesis
    by (simp add: attached_def)
qed

text \<open>
  While the Y.Array under \<open>sys:children\<close> is the one that \<open>created\<close> found, the child ids of
  the model are those of the backing record, whatever else happens; and a replacement of
  that array is followed at the moment it is made.
\<close>

lemma children_follow_array:
  "\<not> list_ex replaces es \<Longrightarrow>
     children_ids (run (Fire_created # es) (new_model a arrs)) =
       arrays (run (Fire_created # es) (new_model a arrs))
         (sys_children (run (Fire_created # es) (new_model a arrs)))"
  using attached_run [OF attached_after_created, of es a arrs]
  by (simp add: run_simps attached_def)

lemma children_follow_replacement:
  assumes "attached m"
  shows "children_ids (step (Set_sys_children b) m) =
     arrays (step (Set_sys_children b) m) (sys_children (step (Set_sys_children b) m))"
proof -
  from assms have "map_observers m = Suc 0" and "children_ids m = arrays m (sys_children m)"
    by (auto simp add: attached_def wired_once_def)
  then show ?thesis
    by (simp add: set_sys_children_def Let_def map_handler_def write_children_fields)
qed

text \<open>
  C1: after \<open>created\<close> has fired, \<open>children\<close> is meant to be the projection of the child
  ids that the backing record holds. The code misses one case: the handler on \<open>yBlock\<close>
  reads the Y.Array that replaces the one under \<open>sys:children\<close> and registers no handler on
  it, so a later change of the new array does not reach the model. Here the record holds
  the ids b and c, and the model still has b alone.
\<close>

theorem children_stale_after_replacement:
  "arrays replaced_model (sys_children replaced_model) = [''b'', ''c''] \<and>
   children_ids replaced_model = [''b''] \<and>
   children replaced_doc 0 = [2] \<and>
   childModels (blocks replaced_doc)
     (arrays (models replaced_doc 0) (sys_children (models replaced_doc 0))) = [2, 3]"
  by (simp add: replaced_doc_def replaced_model_def ex_arrays_def model_defs children_def
      childModels_def)

end
